theory Spec2Isabelle
  imports Main
begin

section \<open>Files, blobs and channel messages\<close>

text \<open>
  A browser \<^verbatim>\<open>File\<close> is a read-only byte sequence with a name and a media type; its
  \<^verbatim>\<open>size\<close> is the number of its bytes. A byte is an 8-bit \<^typ>\<open>char\<close>.
\<close>

record File =
  file_name :: string
  file_type :: string
  contents :: "char list"

definition file_size :: "File \<Rightarrow> int" where
  "file_size f = int (length (contents f))"

text \<open>
  \<^verbatim>\<open>Blob.slice(start, end)\<close> of the File API: a negative position counts from the end,
  every position is clamped to \<open>[0, size]\<close>, and the span is empty when the end lies
  before the start.
\<close>

definition relative_pos :: "int \<Rightarrow> int \<Rightarrow> int" where
  "relative_pos sz i = (if i < 0 then max (sz + i) 0 else min i sz)"

definition slice :: "char list \<Rightarrow> int \<Rightarrow> int \<Rightarrow> char list" where
  "slice bs start end_pos =
     (let sz = int (length bs);
          a = relative_pos sz start;
          b = relative_pos sz end_pos;
          span = max (b - a) 0
      in take (nat span) (drop (nat a) bs))"

text \<open>
  \<^verbatim>\<open>JSON.stringify\<close> on the values the program passes to it: objects of strings,
  integers and nested objects. A string is quoted with the escapes of ECMAScript's
  \<^verbatim>\<open>QuoteJSONString\<close>; an integer prints in decimal.
\<close>

datatype json = JString string | JNumber int | JObject "(string \<times> json) list"

definition backslash :: char where
  "backslash = CHR 0x5C"

definition hex_digit :: "nat \<Rightarrow> char" where
  "hex_digit d = ''0123456789abcdef'' ! d"

definition escape_char :: "char \<Rightarrow> string" where
  "escape_char c =
     (if c = CHR 0x08 then [backslash, CHR ''b'']
      else if c = CHR 0x09 then [backslash, CHR ''t'']
      else if c = CHR 0x0A then [backslash, CHR ''n'']
      else if c = CHR 0x0C then [backslash, CHR ''f'']
      else if c = CHR 0x0D then [backslash, CHR ''r'']
      else if c = CHR 0x22 then [backslash, CHR 0x22]
      else if c = backslash then [backslash, backslash]
      else if of_char c < (32 :: nat)
        then [backslash, CHR ''u'', CHR ''0'', CHR ''0'',
              hex_digit (of_char c div 16), hex_digit (of_char c mod 16)]
      else [c])"

definition quote :: "string \<Rightarrow> string" where
  "quote s = [CHR 0x22] @ concat (map escape_char s) @ [CHR 0x22]"

definition digit_char :: "nat \<Rightarrow> char" where
  "digit_char d = ''0123456789'' ! d"

fun decimal_digits :: "nat \<Rightarrow> string" where
  "decimal_digits n =
     (if n < 10 then [digit_char n]
      else decimal_digits (n div 10) @ [digit_char (n mod 10)])"

text \<open>\<^verbatim>\<open>Number::toString\<close> on an integer.\<close>

definition number_to_string :: "int \<Rightarrow> string" where
  "number_to_string x =
     (if 0 \<le> x then decimal_digits (nat x) else CHR ''-'' # decimal_digits (nat (- x)))"

fun join :: "string \<Rightarrow> string list \<Rightarrow> string" where
  "join sep [] = []"
| "join sep [x] = x"
| "join sep (x # y # ys) = x @ sep @ join sep (y # ys)"

fun JSON_stringify :: "json \<Rightarrow> string" where
  "JSON_stringify (JString s) = quote s"
| "JSON_stringify (JNumber n) = number_to_string n"
| "JSON_stringify (JObject kvs) =
     ''{'' @ join '','' (map (\<lambda>kv. quote (fst kv) @ '':'' @ JSON_stringify (snd kv)) kvs) @ ''}''"

text \<open>A data channel accepts a text message or a binary message per \<^verbatim>\<open>send\<close>.\<close>

datatype message = Text string | Binary "char list"

text \<open>
  What can be thrown inside \<^verbatim>\<open>_sendMessage\<close>: the channel's \<^verbatim>\<open>send\<close> throws, or the
  promise of \<^verbatim>\<open>blob.arrayBuffer()\<close> rejects.
\<close>

datatype exn = SendError | ReadError

text \<open>
  \<^verbatim>\<open>dataChannel.send(m)\<close>: the channel is the list of the messages it has accepted,
  oldest first. Whether a call throws is the environment's choice, \<open>ok\<close>; a call that
  throws hands nothing to the channel.
\<close>

definition send :: "message list \<Rightarrow> bool \<Rightarrow> message \<Rightarrow> exn + message list" where
  "send ch ok m = (if ok then Inr (ch @ [m]) else Inl SendError)"

section \<open>FileStream\<close>

text \<open>
  The values of \<^verbatim>\<open>_state\<close>: \<^verbatim>\<open>'fileinfo'\<close>, \<^verbatim>\<open>'send'\<close>, \<^verbatim>\<open>'sending'\<close> and \<^verbatim>\<open>'done'\<close>.
\<close>

datatype fs_state = Fileinfo | Send | Sending | Done

text \<open>
  The fields of the class, and two parts of its run-time state that JavaScript keeps
  implicitly: \<open>awaiting\<close>, the blobs of the invocations of \<^verbatim>\<open>_sendMessage\<close> that are
  suspended at \<^verbatim>\<open>await blob.arrayBuffer()\<close> (oldest first), and \<open>dispatched\<close>, the
  events the object has dispatched to its listeners as an \<^verbatim>\<open>EventTarget\<close>.
\<close>

record FileStream =
  dataChannel :: "message list"
  state :: fs_state
  "file" :: File
  label :: string
  offset :: int
  awaiting :: "char list list"
  dispatched :: "string list"

text \<open>The constructor; \<open>l\<close> is the label \<^verbatim>\<open>uuid.v4()\<close> returned.\<close>

definition FileStream_new :: "string \<Rightarrow> File \<Rightarrow> FileStream" where
  "FileStream_new l f =
     \<lparr>dataChannel = [], state = Fileinfo, file = f, label = l, offset = 0,
      awaiting = [], dispatched = []\<rparr>"

definition packet :: "File \<Rightarrow> json" where
  "packet f =
     JObject [(''type'', JString ''fileinfo''),
              (''fileinfo'', JObject [(''name'', JString (file_name f)),
                                      (''size'', JNumber (file_size f)),
                                      (''type'', JString (file_type f))])]"

definition done_text :: string where
  \<open>done_text = ''{"type":"done"}''\<close>

text \<open>
  The \<^verbatim>\<open>try\<close> block of \<^verbatim>\<open>_sendMessage\<close>, from the entry of the handler to its return,
  to a throw, or to its suspension at the \<^verbatim>\<open>await\<close>. The result is the object as the
  block left it and the exception thrown, if any. \<open>messageSize\<close> is the constant
  \<^verbatim>\<open>_messageSize\<close>, the integer \<^verbatim>\<open>parseInt\<close> reads from the environment (a variable that
  does not parse is outside the model); \<open>send_ok\<close> says whether the channel accepts
  the message of this invocation. The \<^verbatim>\<open>default\<close> branch only logs; the calls of
  \<^verbatim>\<open>console.log\<close> change nothing and are left out.
\<close>

definition sendMessage_try :: "int \<Rightarrow> bool \<Rightarrow> FileStream \<Rightarrow> FileStream \<times> exn option" where
  "sendMessage_try messageSize send_ok s =
     (case state s of
        Fileinfo \<Rightarrow>
          (case send (dataChannel s) send_ok (Text (JSON_stringify (packet (file s)))) of
             Inl e \<Rightarrow> (s, Some e)
           | Inr ch \<Rightarrow> (s\<lparr>dataChannel := ch, state := Send\<rparr>, None))
      | Send \<Rightarrow>
          if offset s \<ge> file_size (file s) then
            (case send (dataChannel s) send_ok (Text done_text) of
               Inl e \<Rightarrow> (s, Some e)
             | Inr ch \<Rightarrow> (s\<lparr>dataChannel := ch, state := Done\<rparr>, None))
          else
            (let s1 = s\<lparr>state := Sending\<rparr>;
                 end_pos = min (offset s1 + messageSize) (file_size (file s1));
                 blob = slice (contents (file s1)) (offset s1) end_pos;
                 s2 = s1\<lparr>offset := end_pos\<rparr>
             in (s2\<lparr>awaiting := awaiting s2 @ [blob]\<rparr>, None))
      | Sending \<Rightarrow> (s, None)
      | Done \<Rightarrow> (s, None))"

text \<open>
  The rest of the \<^verbatim>\<open>try\<close> block, run when the promise of \<^verbatim>\<open>blob.arrayBuffer()\<close> of the
  oldest suspended invocation settles: rejected (\<open>read_ok\<close> false), the \<^verbatim>\<open>await\<close>
  throws; resolved, the buffer holds the blob's bytes and is sent. With no invocation
  suspended there is nothing to resume.
\<close>

definition sendMessage_resume_try :: "bool \<Rightarrow> bool \<Rightarrow> FileStream \<Rightarrow> FileStream \<times> exn option" where
  "sendMessage_resume_try read_ok send_ok s =
     (case awaiting s of
        [] \<Rightarrow> (s, None)
      | blob # rest \<Rightarrow>
          (let s1 = s\<lparr>awaiting := rest\<rparr> in
           if read_ok then
             (case send (dataChannel s1) send_ok (Binary blob) of
                Inl e \<Rightarrow> (s1, Some e)
              | Inr ch \<Rightarrow> (s1\<lparr>dataChannel := ch, state := Send\<rparr>, None))
           else (s1, Some ReadError)))"

text \<open>
  The \<^verbatim>\<open>catch\<close> clause logs the exception and returns: whatever the block did before
  the throw stays done, and nothing leaves the handler.
\<close>

definition catch :: "FileStream \<times> exn option \<Rightarrow> FileStream" where
  "catch r = fst r"

definition sendMessage :: "int \<Rightarrow> bool \<Rightarrow> FileStream \<Rightarrow> FileStream" where
  "sendMessage messageSize send_ok s = catch (sendMessage_try messageSize send_ok s)"

definition sendMessage_resume :: "bool \<Rightarrow> bool \<Rightarrow> FileStream \<Rightarrow> FileStream" where
  "sendMessage_resume read_ok send_ok s = catch (sendMessage_resume_try read_ok send_ok s)"

text \<open>
  What drives a FileStream: the two channel events the constructor listens to, both
  bound to \<^verbatim>\<open>_sendMessage\<close>, and the settling of a pending byte read.
\<close>

datatype channel_event = Open | BufferedAmountLow

datatype event =
    ChannelEvent channel_event bool
  | ArrayBufferSettled bool bool

fun fs_step :: "int \<Rightarrow> FileStream \<Rightarrow> event \<Rightarrow> FileStream" where
  "fs_step messageSize s (ChannelEvent Open send_ok) = sendMessage messageSize send_ok s"
| "fs_step messageSize s (ChannelEvent BufferedAmountLow send_ok) = sendMessage messageSize send_ok s"
| "fs_step messageSize s (ArrayBufferSettled read_ok send_ok) = sendMessage_resume read_ok send_ok s"

fun fs_run :: "int \<Rightarrow> FileStream \<Rightarrow> event list \<Rightarrow> FileStream" where
  "fs_run messageSize s [] = s"
| "fs_run messageSize s (ev # evs) = fs_run messageSize (fs_step messageSize s ev) evs"

section \<open>Dropper\<close>

text \<open>
  A JavaScript promise is pending, resolved or rejected, and settles once.
  \<^verbatim>\<open>Promise.all\<close> rejects as soon as one of its promises is rejected and resolves
  when all of them are resolved.
\<close>

datatype promise = Pending | Resolved | Rejected

definition resolve :: "promise \<Rightarrow> promise" where
  "resolve p = (case p of Pending \<Rightarrow> Resolved | Resolved \<Rightarrow> Resolved | Rejected \<Rightarrow> Rejected)"

definition Promise_all :: "promise list \<Rightarrow> promise" where
  "Promise_all ps =
     (if list_ex (\<lambda>p. p = Rejected) ps then Rejected
      else if list_all (\<lambda>p. p = Resolved) ps then Resolved
      else Pending)"

text \<open>
  The fields of the class (\<open>drop_id\<close> is the field \<^verbatim>\<open>id\<close>, absent until the peer has
  registered), and the run-time state JavaScript keeps implicitly: the promises
  \<^verbatim>\<open>_awaitFileStreams\<close> made, one per file stream, whether \<^verbatim>\<open>_awaitFileStreams\<close>
  is still suspended at its \<^verbatim>\<open>await\<close>, and the events the Dropper has dispatched to its
  own listeners.
\<close>

record fileinfo_entry =
  info_name :: string
  info_size :: int
  info_type :: string

record Dropper =
  fileStreams :: "FileStream list"
  drop_id :: "string option"
  fileinfo :: "fileinfo_entry list"
  totalSize :: int
  promises :: "promise list"
  awaitFileStreams_suspended :: bool
  events :: "string list"

definition dispatchEvent :: "string \<Rightarrow> Dropper \<Rightarrow> Dropper" where
  "dispatchEvent e d = d\<lparr>events := events d @ [e]\<rparr>"

text \<open>
  The loop of the constructor over \<^verbatim>\<open>files\<close>; \<open>uuid i\<close> is the label \<^verbatim>\<open>uuid.v4()\<close>
  returns for the stream of \<^verbatim>\<open>files[i]\<close>.
\<close>

fun start_file_streams :: "(nat \<Rightarrow> string) \<Rightarrow> nat \<Rightarrow> File list \<Rightarrow> Dropper \<Rightarrow> Dropper" where
  "start_file_streams uuid i [] d = d"
| "start_file_streams uuid i (f # files) d =
     start_file_streams uuid (Suc i) files
       (d\<lparr>fileStreams := fileStreams d @ [FileStream_new (uuid i) f],
          fileinfo := fileinfo d @
            [\<lparr>info_name = file_name f, info_size = file_size f, info_type = file_type f\<rparr>],
          totalSize := totalSize d + file_size f\<rparr>)"

text \<open>
  \<^verbatim>\<open>_awaitFileStreams\<close> up to its \<^verbatim>\<open>await\<close>: one pending promise per file stream, whose
  executor registers \<^verbatim>\<open>resolve\<close> as the stream's \<^verbatim>\<open>'done'\<close> listener and never calls
  \<^verbatim>\<open>reject\<close>.
\<close>

definition awaitFileStreams :: "Dropper \<Rightarrow> Dropper" where
  "awaitFileStreams d =
     d\<lparr>promises := map (\<lambda>fileStream. Pending) (fileStreams d),
       awaitFileStreams_suspended := True\<rparr>"

text \<open>
  The rest of \<^verbatim>\<open>_awaitFileStreams\<close>, run once \<^verbatim>\<open>Promise.all(promises)\<close> has settled:
  resolved, the function dispatches \<^verbatim>\<open>'done'\<close>; rejected, the \<^verbatim>\<open>await\<close> throws and the
  \<^verbatim>\<open>catch\<close> clause dispatches \<^verbatim>\<open>'failed'\<close>.
\<close>

definition awaitFileStreams_resume :: "Dropper \<Rightarrow> Dropper" where
  "awaitFileStreams_resume d =
     (if awaitFileStreams_suspended d then
        (case Promise_all (promises d) of
           Pending \<Rightarrow> d
         | Resolved \<Rightarrow> dispatchEvent ''done'' (d\<lparr>awaitFileStreams_suspended := False\<rparr>)
         | Rejected \<Rightarrow> dispatchEvent ''failed'' (d\<lparr>awaitFileStreams_suspended := False\<rparr>))
      else d)"

text \<open>The constructor, and the microtasks that follow it.\<close>

definition Dropper_new :: "(nat \<Rightarrow> string) \<Rightarrow> File list \<Rightarrow> Dropper" where
  "Dropper_new uuid files =
     awaitFileStreams_resume (awaitFileStreams (start_file_streams uuid 0 files
       \<lparr>fileStreams = [], drop_id = None, fileinfo = [], totalSize = 0, promises = [],
        awaitFileStreams_suspended = False, events = []\<rparr>))"

text \<open>The three listeners on the peer.\<close>

datatype peer_event = Registered string | Connected | Disconnected

fun on_peer_event :: "peer_event \<Rightarrow> Dropper \<Rightarrow> Dropper" where
  "on_peer_event (Registered data) d = dispatchEvent ''idchanged'' (d\<lparr>drop_id := Some data\<rparr>)"
| "on_peer_event Connected d = dispatchEvent ''connected'' d"
| "on_peer_event Disconnected d = dispatchEvent ''disconnected'' d"

text \<open>
  An event of the \<open>i\<close>-th file stream: the stream handles it; each \<^verbatim>\<open>'done'\<close> event it
  dispatches meanwhile calls the listener \<^verbatim>\<open>resolve\<close> of the \<open>i\<close>-th promise; then
  \<^verbatim>\<open>_awaitFileStreams\<close> resumes if \<^verbatim>\<open>Promise.all\<close> has settled.
\<close>

definition on_stream_event :: "int \<Rightarrow> nat \<Rightarrow> event \<Rightarrow> Dropper \<Rightarrow> Dropper" where
  "on_stream_event messageSize i ev d =
     (if i < length (fileStreams d) then
        (let fileStream = fileStreams d ! i;
             fileStream' = fs_step messageSize fileStream ev;
             fired = drop (length (dispatched fileStream)) (dispatched fileStream');
             d1 = d\<lparr>fileStreams := (fileStreams d)[i := fileStream']\<rparr>;
             d2 = (if ''done'' \<in> set fired \<and> i < length (promises d1)
                   then d1\<lparr>promises := (promises d1)[i := resolve (promises d1 ! i)]\<rparr>
                   else d1)
         in awaitFileStreams_resume d2)
      else d)"

datatype dropper_event = PeerEvent peer_event | StreamEvent nat event

fun dropper_step :: "int \<Rightarrow> Dropper \<Rightarrow> dropper_event \<Rightarrow> Dropper" where
  "dropper_step messageSize d (PeerEvent pe) = on_peer_event pe d"
| "dropper_step messageSize d (StreamEvent i ev) = on_stream_event messageSize i ev d"

fun dropper_run :: "int \<Rightarrow> Dropper \<Rightarrow> dropper_event list \<Rightarrow> Dropper" where
  "dropper_run messageSize d [] = d"
| "dropper_run messageSize d (ev # evs) = dropper_run messageSize (dropper_step messageSize d ev) evs"

text \<open>The getter \<^verbatim>\<open>bytesSent\<close>: its loop, from index \<open>i\<close> with the sum so far.\<close>

function bytesSent_loop :: "FileStream list \<Rightarrow> nat \<Rightarrow> int \<Rightarrow> int" where
  "bytesSent_loop fss i acc =
     (if i < length fss then bytesSent_loop fss (i + 1) (acc + offset (fss ! i)) else acc)"
  by pat_completeness auto
termination
  by (relation "measure (\<lambda>(fss, i, acc). length fss - i)") auto

definition bytesSent :: "Dropper \<Rightarrow> int" where
  "bytesSent d = bytesSent_loop (fileStreams d) 0 0"

section \<open>Invariants of the runs\<close>

text \<open>
  What every event preserves in a FileStream made for the file \<open>f\<close>, whatever the
  message size: the stream dispatches no event of its own, its offset never passes
  the file's size, at most one invocation is suspended and only in state \<open>Sending\<close>,
  and the \<^verbatim>\<open>done\<close> message is on the channel at most once and only in state \<open>Done\<close>.
\<close>

definition fs_inv :: "File \<Rightarrow> FileStream \<Rightarrow> bool" where
  "fs_inv f s \<longleftrightarrow>
     file s = f \<and> dispatched s = [] \<and> offset s \<le> file_size f \<and>
     length (awaiting s) \<le> 1 \<and>
     (state s \<noteq> Sending \<longrightarrow> awaiting s = []) \<and>
     (Text done_text \<in> set (dataChannel s) \<longrightarrow> state s = Done) \<and>
     count_list (dataChannel s) (Text done_text) \<le> 1"

text \<open>
  What the channel holds, state by state, for a non-negative message size \<open>m\<close>: after
  the file information come payloads of at most \<open>m\<close> bytes that make up the first
  \<open>k\<close> bytes of the file; \<open>k\<close> is the offset in state \<open>Send\<close>, the start of the blob
  being read in state \<open>Sending\<close>, and the whole file in state \<open>Done\<close>.
\<close>

definition wire_inv :: "int \<Rightarrow> File \<Rightarrow> FileStream \<Rightarrow> bool" where
  "wire_inv m f s \<longleftrightarrow>
     (\<exists>chunks k. k \<le> length (contents f) \<and> concat chunks = take k (contents f) \<and>
        (\<forall>c \<in> set chunks. int (length c) \<le> m) \<and>
        (case state s of
           Fileinfo \<Rightarrow> dataChannel s = [] \<and> offset s = 0
         | Send \<Rightarrow>
             dataChannel s = Text (JSON_stringify (packet f)) # map Binary chunks \<and>
             offset s = int k
         | Sending \<Rightarrow>
             dataChannel s = Text (JSON_stringify (packet f)) # map Binary chunks \<and>
             (awaiting s = [] \<or>
              awaiting s = [slice (contents f) (int k) (offset s)] \<and>
              int k \<le> offset s \<and> offset s \<le> int k + m)
         | Done \<Rightarrow>
             dataChannel s =
               Text (JSON_stringify (packet f)) # map Binary chunks @ [Text done_text] \<and>
             k = length (contents f)))"

text \<open>What every event preserves in a Dropper: no promise is rejected, no \<^verbatim>\<open>'failed'\<close> dispatched.\<close>

definition dropper_inv :: "Dropper \<Rightarrow> bool" where
  "dropper_inv d \<longleftrightarrow> Rejected \<notin> set (promises d) \<and> ''failed'' \<notin> set (events d)"

section \<open>Example inputs\<close>

definition hello_txt :: File where
  "hello_txt = \<lparr>file_name = ''a.txt'', file_type = ''text/plain'', contents = ''hello''\<rparr>"

definition empty_txt :: File where
  "empty_txt = \<lparr>file_name = ''empty.txt'', file_type = ''text/plain'', contents = []\<rparr>"

text \<open>A complete transfer of \<open>hello_txt\<close> with a message size of 2: three chunks.\<close>

definition hello_events :: "event list" where
  "hello_events =
     [ChannelEvent Open True,
      ChannelEvent BufferedAmountLow True, ArrayBufferSettled True True,
      ChannelEvent BufferedAmountLow True, ArrayBufferSettled True True,
      ChannelEvent BufferedAmountLow True, ArrayBufferSettled True True,
      ChannelEvent BufferedAmountLow True]"

text \<open>The stream of \<open>hello_txt\<close> after the file information, and during its first read.\<close>

definition send_hello :: FileStream where
  "send_hello = fs_run 2 (FileStream_new ''L'' hello_txt) [ChannelEvent Open True]"

definition sending_hello :: FileStream where
  "sending_hello =
     fs_run 2 (FileStream_new ''L'' hello_txt)
       [ChannelEvent Open True, ChannelEvent BufferedAmountLow True]"

definition example_uuid :: "nat \<Rightarrow> string" where
  "example_uuid i = ''stream-'' @ decimal_digits i"

text \<open>
  A batch of three files in which the first and the third stream finish and the byte
  read of the second is rejected.
\<close>

definition scenario_D :: "dropper_event list" where
  "scenario_D =
     [StreamEvent 0 (ChannelEvent Open True),
      StreamEvent 1 (ChannelEvent Open True),
      StreamEvent 2 (ChannelEvent Open True),
      StreamEvent 0 (ChannelEvent BufferedAmountLow True),
      StreamEvent 2 (ChannelEvent BufferedAmountLow True),
      StreamEvent 1 (ChannelEvent BufferedAmountLow True),
      StreamEvent 1 (ArrayBufferSettled False True),
      StreamEvent 1 (ChannelEvent BufferedAmountLow True)]"

section \<open>Facts about the model\<close>

text \<open>
  The equations of the two loops are unfolded by hand: each is unconditional and
  recursive.
\<close>

declare decimal_digits.simps [simp del]

declare bytesSent_loop.simps [simp del]

subsection \<open>Text messages\<close>

lemma fileinfo_text:
  \<open>JSON_stringify (packet f) =
     ''{"type":"fileinfo","fileinfo":{"name":'' @ quote (file_name f) @
     '',"size":'' @ number_to_string (file_size f) @
     '',"type":'' @ quote (file_type f) @ ''}}''\<close>
  by (simp add: packet_def quote_def escape_char_def backslash_def)

lemma done_text_stringify: "JSON_stringify (JObject [(''type'', JString ''done'')]) = done_text"
  by (simp add: quote_def escape_char_def backslash_def done_text_def)

lemma fileinfo_neq_done: "JSON_stringify (packet f) \<noteq> done_text"
  by (simp add: packet_def quote_def escape_char_def backslash_def done_text_def)

subsection \<open>Slices\<close>

lemma slice_range:
  assumes "0 \<le> a" "a \<le> b" "b \<le> int (length bs)"
  shows "slice bs a b = take (nat (b - a)) (drop (nat a) bs)"
  using assms by (simp add: slice_def relative_pos_def Let_def)

lemma take_slice:
  assumes "0 \<le> a" "a \<le> b" "b \<le> int (length bs)"
  shows "take (nat a) bs @ slice bs a b = take (nat b) bs"
proof -
  have "nat b = nat a + nat (b - a)" using assms by simp
  then show ?thesis
    using assms by (simp add: slice_range take_add)
qed

lemma length_slice:
  assumes "0 \<le> a" "a \<le> b" "b \<le> int (length bs)"
  shows "int (length (slice bs a b)) = b - a"
  using assms by (simp add: slice_range)

subsection \<open>Steps and runs of a FileStream\<close>

lemmas fs_eval =
  FileStream_new_def sendMessage_def sendMessage_try_def sendMessage_resume_def
  sendMessage_resume_try_def catch_def send_def Let_def file_size_def slice_def relative_pos_def

lemma fs_step_ChannelEvent: "fs_step m s (ChannelEvent ce ok) = sendMessage m ok s"
  by (cases ce) simp_all

lemma fs_run_append: "fs_run m s (xs @ ys) = fs_run m (fs_run m s xs) ys"
  by (induction xs arbitrary: s) simp_all

lemma sending_ignores: "state s = Sending \<Longrightarrow> sendMessage m ok s = s"
  by (simp add: sendMessage_def sendMessage_try_def catch_def)

lemma sending_run_channel_events:
  "state s = Sending \<Longrightarrow> fs_run m s (map (\<lambda>(ce, ok). ChannelEvent ce ok) mid) = s"
  by (induction mid) (auto simp: fs_step_ChannelEvent sending_ignores)

lemma stalled_step:
  assumes "state s = Sending" "awaiting s = []"
  shows "fs_step m s ev = s"
proof (cases ev)
  case (ChannelEvent ce ok)
  with assms show ?thesis by (simp add: fs_step_ChannelEvent sending_ignores)
next
  case (ArrayBufferSettled r ok)
  with assms show ?thesis
    by (simp add: sendMessage_resume_def sendMessage_resume_try_def catch_def)
qed

lemma stalled_run:
  "state s = Sending \<Longrightarrow> awaiting s = [] \<Longrightarrow> fs_run m s evs = s"
  by (induction evs) (simp_all add: stalled_step)

lemma leaves_sending:
  assumes "state s = Sending" "state (fs_step m s ev) \<noteq> Sending"
  shows "ev = ArrayBufferSettled True True \<and>
         (\<exists>blob rest. awaiting s = blob # rest \<and> awaiting (fs_step m s ev) = rest \<and>
            dataChannel (fs_step m s ev) = dataChannel s @ [Binary blob] \<and>
            state (fs_step m s ev) = Send)"
proof (cases ev)
  case (ChannelEvent ce ok)
  with assms show ?thesis by (simp add: fs_step_ChannelEvent sending_ignores)
next
  case (ArrayBufferSettled r ok)
  with assms show ?thesis
    by (auto simp: sendMessage_resume_def sendMessage_resume_try_def catch_def send_def Let_def
          split: list.splits if_splits)
qed

subsection \<open>The offset\<close>

lemma offset_resume: "offset (sendMessage_resume r ok s) = offset s"
  by (auto simp: sendMessage_resume_def sendMessage_resume_try_def catch_def send_def Let_def
        split: list.splits)

lemma offset_sendMessage_cases:
  "sendMessage m ok s =
     s\<lparr>state := Sending, offset := min (offset s + m) (file_size (file s)),
       awaiting := awaiting s @
         [slice (contents (file s)) (offset s) (min (offset s + m) (file_size (file s)))]\<rparr>
     \<and> state s = Send \<and> offset s < file_size (file s)
   \<or> offset (sendMessage m ok s) = offset s"
  by (auto simp: sendMessage_def sendMessage_try_def catch_def send_def Let_def
        split: fs_state.splits)

lemma offset_step_mono:
  assumes "0 \<le> m"
  shows "offset s \<le> offset (fs_step m s ev)"
proof (cases ev)
  case (ChannelEvent ce ok)
  with assms offset_sendMessage_cases[of m ok s] show ?thesis
    by (auto simp: fs_step_ChannelEvent)
next
  case (ArrayBufferSettled r ok)
  then show ?thesis by (simp add: offset_resume)
qed

lemma offset_nonneg_run:
  "0 \<le> m \<Longrightarrow> 0 \<le> offset s \<Longrightarrow> 0 \<le> offset (fs_run m s evs)"
proof (induction evs arbitrary: s)
  case Nil
  then show ?case by simp
next
  case (Cons ev evs)
  from Cons.prems have "0 \<le> offset (fs_step m s ev)"
    using offset_step_mono[of m s ev] by simp
  with Cons show ?case by simp
qed

subsection \<open>The structural invariant\<close>

lemma fs_inv_new: "fs_inv f (FileStream_new l f)"
  by (simp add: fs_inv_def FileStream_new_def file_size_def)

lemma fs_inv_sendMessage: "fs_inv f s \<Longrightarrow> fs_inv f (sendMessage m ok s)"
  by (auto simp: fs_inv_def sendMessage_def sendMessage_try_def catch_def send_def Let_def
        fileinfo_neq_done fileinfo_neq_done[THEN not_sym] split: fs_state.splits)

lemma fs_inv_resume: "fs_inv f s \<Longrightarrow> fs_inv f (sendMessage_resume r ok s)"
  by (auto simp: fs_inv_def sendMessage_resume_def sendMessage_resume_try_def catch_def send_def
        Let_def split: list.splits)

lemma fs_inv_step: "fs_inv f s \<Longrightarrow> fs_inv f (fs_step m s ev)"
  by (cases ev) (simp_all add: fs_step_ChannelEvent fs_inv_sendMessage fs_inv_resume)

lemma fs_inv_run: "fs_inv f s \<Longrightarrow> fs_inv f (fs_run m s evs)"
  by (induction evs arbitrary: s) (simp_all add: fs_inv_step)

text \<open>In a run from the constructor the state \<^verbatim>\<open>'done'\<close> is final.\<close>

lemma done_final:
  assumes "fs_inv f s" "state s = Done"
  shows "fs_step m s ev = s"
proof (cases ev)
  case (ChannelEvent ce ok)
  with assms show ?thesis
    by (simp add: fs_step_ChannelEvent sendMessage_def sendMessage_try_def catch_def)
next
  case (ArrayBufferSettled r ok)
  from assms have "awaiting s = []" by (simp add: fs_inv_def)
  with ArrayBufferSettled show ?thesis
    by (simp add: sendMessage_resume_def sendMessage_resume_try_def catch_def)
qed

lemma never_dispatches: "dispatched (fs_run m (FileStream_new l f) evs) = []"
proof -
  have "fs_inv f (fs_run m (FileStream_new l f) evs)"
    by (rule fs_inv_run) (rule fs_inv_new)
  then show ?thesis by (simp add: fs_inv_def)
qed

subsection \<open>The channel's contents\<close>

lemma wire_inv_new: "wire_inv m f (FileStream_new l f)"
  by (auto simp: wire_inv_def FileStream_new_def intro!: exI[of _ "[]"] exI[of _ "0::nat"])

lemma wire_inv_sendMessage:
  assumes "0 \<le> m" "fs_inv f s" "wire_inv m f s"
  shows "wire_inv m f (sendMessage m ok s)"
proof (cases "state s")
  case Fileinfo
  show ?thesis
  proof (cases ok)
    case True
    with Fileinfo assms have "state (sendMessage m ok s) = Send"
      "dataChannel (sendMessage m ok s) = [Text (JSON_stringify (packet f))]"
      "offset (sendMessage m ok s) = 0"
      by (auto simp: sendMessage_def sendMessage_try_def catch_def send_def wire_inv_def fs_inv_def)
    then show ?thesis
      by (auto simp: wire_inv_def intro!: exI[of _ "[]"] exI[of _ "0::nat"])
  next
    case False
    with Fileinfo have "sendMessage m ok s = s"
      by (simp add: sendMessage_def sendMessage_try_def catch_def send_def)
    with assms show ?thesis by simp
  qed
next
  case Send
  from assms Send obtain chunks k where ck:
    "k \<le> length (contents f)" "concat chunks = take k (contents f)"
    "\<forall>c \<in> set chunks. int (length c) \<le> m"
    "dataChannel s = Text (JSON_stringify (packet f)) # map Binary chunks" "offset s = int k"
    by (auto simp: wire_inv_def)
  from assms Send have aw: "awaiting s = []" "file s = f" by (auto simp: fs_inv_def)
  show ?thesis
  proof (cases "offset s \<ge> file_size f")
    case True
    with ck have k: "k = length (contents f)" by (simp add: file_size_def)
    show ?thesis
    proof (cases ok)
      case True
      with Send \<open>offset s \<ge> file_size f\<close> aw have
        "state (sendMessage m ok s) = Done"
        "dataChannel (sendMessage m ok s) = dataChannel s @ [Text done_text]"
        by (auto simp: sendMessage_def sendMessage_try_def catch_def send_def)
      with ck k show ?thesis
        by (auto simp: wire_inv_def intro!: exI[of _ chunks])
    next
      case False
      with Send \<open>offset s \<ge> file_size f\<close> aw have "sendMessage m ok s = s"
        by (simp add: sendMessage_def sendMessage_try_def catch_def send_def)
      with assms show ?thesis by simp
    qed
  next
    case False
    define e where "e = min (offset s + m) (file_size f)"
    from False Send aw have st:
      "state (sendMessage m ok s) = Sending"
      "dataChannel (sendMessage m ok s) = dataChannel s"
      "offset (sendMessage m ok s) = e"
      "awaiting (sendMessage m ok s) = [slice (contents f) (offset s) e]"
      by (auto simp: sendMessage_def sendMessage_try_def catch_def Let_def e_def)
    from False assms(1) ck have "int k \<le> e" "e \<le> int k + m"
      by (auto simp: e_def)
    with st ck show ?thesis
      by (auto simp: wire_inv_def intro!: exI[of _ chunks] exI[of _ k])
  qed
next
  case Sending
  then have "sendMessage m ok s = s"
    by (simp add: sendMessage_def sendMessage_try_def catch_def)
  with assms show ?thesis by simp
next
  case Done
  then have "sendMessage m ok s = s"
    by (simp add: sendMessage_def sendMessage_try_def catch_def)
  with assms show ?thesis by simp
qed

lemma wire_inv_resume:
  assumes "fs_inv f s" "wire_inv m f s"
  shows "wire_inv m f (sendMessage_resume r ok s)"
proof (cases "awaiting s")
  case Nil
  then have "sendMessage_resume r ok s = s"
    by (simp add: sendMessage_resume_def sendMessage_resume_try_def catch_def)
  with assms show ?thesis by simp
next
  case (Cons blob rest)
  with assms have st: "state s = Sending" by (auto simp: fs_inv_def)
  with assms Cons obtain chunks k where ck:
    "k \<le> length (contents f)" "concat chunks = take k (contents f)"
    "\<forall>c \<in> set chunks. int (length c) \<le> m"
    "dataChannel s = Text (JSON_stringify (packet f)) # map Binary chunks"
    "blob = slice (contents f) (int k) (offset s)" "rest = []"
    "int k \<le> offset s" "offset s \<le> int k + m"
    by (auto simp: wire_inv_def)
  from assms have le: "offset s \<le> int (length (contents f))"
    by (simp add: fs_inv_def file_size_def)
  show ?thesis
  proof (cases "r \<and> ok")
    case True
    with Cons have res:
      "state (sendMessage_resume r ok s) = Send"
      "dataChannel (sendMessage_resume r ok s) = dataChannel s @ [Binary blob]"
      "offset (sendMessage_resume r ok s) = offset s"
      by (auto simp: sendMessage_resume_def sendMessage_resume_try_def catch_def send_def Let_def)
    have c1: "concat (chunks @ [blob]) = take (nat (offset s)) (contents f)"
      using ck le take_slice[of "int k" "offset s" "contents f"] by simp
    have c2: "\<forall>c \<in> set (chunks @ [blob]). int (length c) \<le> m"
      using ck le length_slice[of "int k" "offset s" "contents f"] by auto
    have c3: "nat (offset s) \<le> length (contents f)" using le by simp
    have c4: "offset s = int (nat (offset s))" using ck by simp
    show ?thesis
      unfolding wire_inv_def
      apply (rule exI[of _ "chunks @ [blob]"])
      apply (rule exI[of _ "nat (offset s)"])
      using c1 c2 c3 c4 res ck(4) by simp
  next
    case False
    with Cons st have res:
      "state (sendMessage_resume r ok s) = Sending"
      "dataChannel (sendMessage_resume r ok s) = dataChannel s"
      "awaiting (sendMessage_resume r ok s) = rest"
      by (auto simp: sendMessage_resume_def sendMessage_resume_try_def catch_def send_def Let_def)
    with ck show ?thesis
      by (auto simp: wire_inv_def intro!: exI[of _ chunks] exI[of _ k])
  qed
qed

lemma wire_inv_step:
  "0 \<le> m \<Longrightarrow> fs_inv f s \<Longrightarrow> wire_inv m f s \<Longrightarrow> wire_inv m f (fs_step m s ev)"
  by (cases ev) (simp_all add: fs_step_ChannelEvent wire_inv_sendMessage wire_inv_resume)

lemma wire_inv_run:
  "0 \<le> m \<Longrightarrow> fs_inv f s \<Longrightarrow> wire_inv m f s \<Longrightarrow> wire_inv m f (fs_run m s evs)"
  by (induction evs arbitrary: s) (simp_all add: wire_inv_step fs_inv_step)

subsection \<open>A transfer can finish\<close>

lemma send_round:
  assumes "state s = Send" "awaiting s = []" "offset s < file_size (file s)"
  shows "state (fs_run m s [ChannelEvent BufferedAmountLow True, ArrayBufferSettled True True]) = Send"
    and "awaiting (fs_run m s [ChannelEvent BufferedAmountLow True, ArrayBufferSettled True True]) = []"
    and "offset (fs_run m s [ChannelEvent BufferedAmountLow True, ArrayBufferSettled True True]) =
           min (offset s + m) (file_size (file s))"
  using assms
  by (simp_all add: sendMessage_def sendMessage_try_def sendMessage_resume_def
        sendMessage_resume_try_def catch_def send_def Let_def)

lemma send_finish:
  assumes "state s = Send" "offset s \<ge> file_size (file s)"
  shows "state (fs_run m s [ChannelEvent BufferedAmountLow True]) = Done"
  using assms by (simp add: sendMessage_def sendMessage_try_def catch_def send_def)

lemma reach_Done_from_Send:
  assumes "0 < m"
  shows "fs_inv f s \<Longrightarrow> state s = Send \<Longrightarrow> \<exists>evs. state (fs_run m s evs) = Done"
proof (induction "nat (file_size f - offset s)" arbitrary: s rule: less_induct)
  case less
  from less.prems have fs: "file s = f" "awaiting s = []" by (auto simp: fs_inv_def)
  show ?case
  proof (cases "offset s \<ge> file_size f")
    case True
    with less.prems fs show ?thesis
      using send_finish[of s m] by blast
  next
    case False
    let ?r = "[ChannelEvent BufferedAmountLow True, ArrayBufferSettled True True]"
    let ?s = "fs_run m s ?r"
    from False less.prems fs have r: "state ?s = Send" "offset ?s = min (offset s + m) (file_size f)"
      using send_round[of s m] by auto
    have inv: "fs_inv f ?s" using less.prems by (rule_tac fs_inv_run)
    from r False assms have "nat (file_size f - offset ?s) < nat (file_size f - offset s)"
      by auto
    from less.hyps[OF this inv r(1)] obtain evs where "state (fs_run m ?s evs) = Done" ..
    then have "state (fs_run m s (?r @ evs)) = Done"
      by (simp only: fs_run_append)
    then show ?thesis ..
  qed
qed

lemma reach_Done:
  assumes "0 < m"
  shows "\<exists>evs. state (fs_run m (FileStream_new l f) evs) = Done"
proof -
  let ?s = "fs_run m (FileStream_new l f) [ChannelEvent Open True]"
  have inv: "fs_inv f ?s" by (rule fs_inv_run) (rule fs_inv_new)
  have "state ?s = Send"
    by (simp add: FileStream_new_def sendMessage_def sendMessage_try_def catch_def send_def)
  from reach_Done_from_Send[OF assms inv this] obtain evs where
    "state (fs_run m ?s evs) = Done" ..
  then have "state (fs_run m (FileStream_new l f) ([ChannelEvent Open True] @ evs)) = Done"
    by (simp only: fs_run_append)
  then show ?thesis ..
qed

subsection \<open>Sending the done message\<close>

lemma sends_done_sendMessage:
  assumes "dataChannel (sendMessage m ok s) = dataChannel s @ [Text done_text]"
  shows "state s = Send \<and> file_size (file s) \<le> offset s \<and> offset (sendMessage m ok s) = offset s"
  using assms
  by (auto simp: sendMessage_def sendMessage_try_def catch_def send_def Let_def
        fileinfo_neq_done split: fs_state.splits if_splits)

lemma sends_done_resume:
  "dataChannel (sendMessage_resume r ok s) \<noteq> dataChannel s @ [Text done_text]"
  by (auto simp: sendMessage_resume_def sendMessage_resume_try_def catch_def send_def Let_def
        split: list.splits)

subsection \<open>The Dropper\<close>

lemmas dropper_eval =
  Dropper_new_def awaitFileStreams_def awaitFileStreams_resume_def Promise_all_def
  on_stream_event_def dispatchEvent_def resolve_def

lemma bytesSent_loop_sum:
  "bytesSent_loop fss i acc = acc + sum_list (map offset (drop i fss))"
proof (induction fss i acc rule: bytesSent_loop.induct)
  case (1 fss i acc)
  show ?case
  proof (cases "i < length fss")
    case True
    then have "drop i fss = fss ! i # drop (Suc i) fss"
      by (simp add: Cons_nth_drop_Suc)
    with True 1 show ?thesis by (subst bytesSent_loop.simps) simp
  next
    case False
    then show ?thesis by (subst bytesSent_loop.simps) simp
  qed
qed

lemma sum_offset_update:
  "i < length fss \<Longrightarrow> offset (fss ! i) \<le> offset y \<Longrightarrow>
     sum_list (map offset fss) \<le> sum_list (map offset (fss[i := y]))"
proof (induction fss arbitrary: i)
  case Nil
  then show ?case by simp
next
  case (Cons x xs)
  then show ?case by (cases i) auto
qed

lemma fileStreams_resume: "fileStreams (awaitFileStreams_resume d) = fileStreams d"
  by (simp add: awaitFileStreams_resume_def dispatchEvent_def split: promise.splits)

lemma fileStreams_on_stream_event:
  "fileStreams (on_stream_event m i ev d) =
     (if i < length (fileStreams d) then (fileStreams d)[i := fs_step m (fileStreams d ! i) ev]
      else fileStreams d)"
  by (simp add: on_stream_event_def Let_def fileStreams_resume)

lemma fileStreams_on_peer_event: "fileStreams (on_peer_event pe d) = fileStreams d"
  by (cases pe) (simp_all add: dispatchEvent_def)

lemma bytesSent_step_mono:
  assumes "0 \<le> m"
  shows "bytesSent d \<le> bytesSent (dropper_step m d ev)"
proof (cases ev)
  case (PeerEvent pe)
  then show ?thesis by (simp add: bytesSent_def fileStreams_on_peer_event)
next
  case (StreamEvent i e)
  show ?thesis
  proof (cases "i < length (fileStreams d)")
    case True
    have "offset (fileStreams d ! i) \<le> offset (fs_step m (fileStreams d ! i) e)"
      using assms by (rule offset_step_mono)
    with True have "sum_list (map offset (fileStreams d)) \<le>
        sum_list (map offset ((fileStreams d)[i := fs_step m (fileStreams d ! i) e]))"
      by (rule sum_offset_update)
    with True StreamEvent show ?thesis
      by (simp add: bytesSent_def bytesSent_loop_sum fileStreams_on_stream_event)
  next
    case False
    with StreamEvent show ?thesis by (simp add: on_stream_event_def)
  qed
qed

lemma bytesSent_run_mono:
  assumes "0 \<le> m"
  shows "bytesSent d \<le> bytesSent (dropper_run m d evs)"
proof (induction evs arbitrary: d)
  case Nil
  then show ?case by simp
next
  case (Cons ev evs)
  have "bytesSent d \<le> bytesSent (dropper_step m d ev)"
    using assms by (rule bytesSent_step_mono)
  also have "\<dots> \<le> bytesSent (dropper_run m (dropper_step m d ev) evs)"
    by (rule Cons.IH)
  finally show ?case by simp
qed

lemma Promise_all_not_Rejected: "Rejected \<notin> set ps \<Longrightarrow> Promise_all ps \<noteq> Rejected"
  by (auto simp: Promise_all_def list_ex_iff)

lemma dropper_inv_resume: "dropper_inv d \<Longrightarrow> dropper_inv (awaitFileStreams_resume d)"
  using Promise_all_not_Rejected[of "promises d"]
  by (auto simp: dropper_inv_def awaitFileStreams_resume_def dispatchEvent_def split: promise.splits)

lemma resolve_not_Rejected: "p \<noteq> Rejected \<Longrightarrow> resolve p \<noteq> Rejected"
  by (cases p) (simp_all add: resolve_def)

lemma dropper_inv_on_stream_event:
  assumes "dropper_inv d"
  shows "dropper_inv (on_stream_event m i ev d)"
proof (cases "i < length (fileStreams d)")
  case False
  with assms show ?thesis by (simp add: on_stream_event_def)
next
  case True
  let ?d1 = "d\<lparr>fileStreams := (fileStreams d)[i := fs_step m (fileStreams d ! i) ev]\<rparr>"
  let ?d2 = "?d1\<lparr>promises := (promises ?d1)[i := resolve (promises ?d1 ! i)]\<rparr>"
  from assms have d1: "dropper_inv ?d1" by (simp add: dropper_inv_def)
  have d2: "dropper_inv ?d2" if "i < length (promises d)"
  proof -
    from assms that have "promises d ! i \<noteq> Rejected"
      by (auto simp: dropper_inv_def dest: nth_mem)
    then have "resolve (promises d ! i) \<noteq> Rejected" by (rule resolve_not_Rejected)
    with assms show ?thesis
      by (auto simp: dropper_inv_def dest!: set_update_subset_insert[THEN subsetD])
  qed
  have "on_stream_event m i ev d = awaitFileStreams_resume ?d2 \<and> i < length (promises d) \<or>
        on_stream_event m i ev d = awaitFileStreams_resume ?d1"
    using True by (simp add: on_stream_event_def Let_def)
  with d1 d2 show ?thesis
    by (elim disjE conjE) (simp_all only: dropper_inv_resume)
qed

lemma dropper_inv_step: "dropper_inv d \<Longrightarrow> dropper_inv (dropper_step m d ev)"
proof (cases ev)
  case (PeerEvent pe)
  assume "dropper_inv d"
  with PeerEvent show ?thesis
    by (cases pe) (simp_all add: dropper_inv_def dispatchEvent_def)
next
  case (StreamEvent i e)
  assume "dropper_inv d"
  with StreamEvent show ?thesis by (simp add: dropper_inv_on_stream_event)
qed

lemma dropper_inv_run: "dropper_inv d \<Longrightarrow> dropper_inv (dropper_run m d evs)"
  by (induction evs arbitrary: d) (simp_all add: dropper_inv_step)

lemma events_start_file_streams: "events (start_file_streams uuid i files d) = events d"
  by (induction files arbitrary: i d) simp_all

lemma dropper_inv_new: "dropper_inv (Dropper_new uuid files)"
  unfolding Dropper_new_def
  by (rule dropper_inv_resume)
    (auto simp: dropper_inv_def awaitFileStreams_def events_start_file_streams)

lemma rejected_wait_dispatches_failed:
  assumes "awaitFileStreams_suspended d" "Rejected \<in> set (promises d)"
  shows "events (awaitFileStreams_resume d) = events d @ [''failed'']"
  using assms by (simp add: awaitFileStreams_resume_def Promise_all_def list_ex_iff dispatchEvent_def)

section \<open>The claims\<close>

text \<open>
  C1. For every file and every positive message size, a transfer can finish, and in
  every run that has reached the state \<^verbatim>\<open>'done'\<close> the channel was handed exactly: the
  text message with the file's name, size and type, first and once; then binary
  messages of at most the message size each, whose concatenation in order is the
  file's bytes; then the text message \<^verbatim>\<open>{"type":"done"}\<close>, last and once. In every
  run, finished or not, the channel holds nothing, or the file information followed by
  such binary messages for the first bytes of the file, or the whole sequence. The runs
  range over every order of channel events and every outcome of reads and sends.
\<close>

theorem C1_wire_sequence:
  assumes "0 < messageSize"
  shows \<open>(\<exists>evs. state (fs_run messageSize (FileStream_new l f) evs) = Done) \<and>
         (\<forall>evs. state (fs_run messageSize (FileStream_new l f) evs) = Done \<longrightarrow>
            (\<exists>chunks.
               dataChannel (fs_run messageSize (FileStream_new l f) evs) =
                 [Text (''{"type":"fileinfo","fileinfo":{"name":'' @ quote (file_name f) @
                        '',"size":'' @ number_to_string (file_size f) @
                        '',"type":'' @ quote (file_type f) @ ''}}'')] @
                 map Binary chunks @ [Text ''{"type":"done"}''] \<and>
               concat chunks = contents f \<and>
               (\<forall>c \<in> set chunks. int (length c) \<le> messageSize))) \<and>
         (\<forall>evs. \<exists>chunks k.
            concat chunks = take k (contents f) \<and>
            (\<forall>c \<in> set chunks. int (length c) \<le> messageSize) \<and>
            (dataChannel (fs_run messageSize (FileStream_new l f) evs) = [] \<or>
             dataChannel (fs_run messageSize (FileStream_new l f) evs) =
               [Text (''{"type":"fileinfo","fileinfo":{"name":'' @ quote (file_name f) @
                      '',"size":'' @ number_to_string (file_size f) @
                      '',"type":'' @ quote (file_type f) @ ''}}'')] @
               map Binary chunks \<or>
             dataChannel (fs_run messageSize (FileStream_new l f) evs) =
               [Text (''{"type":"fileinfo","fileinfo":{"name":'' @ quote (file_name f) @
                      '',"size":'' @ number_to_string (file_size f) @
                      '',"type":'' @ quote (file_type f) @ ''}}'')] @
               map Binary chunks @ [Text ''{"type":"done"}''] \<and>
             k = length (contents f)))\<close>
proof (intro conjI allI impI)
  show "\<exists>evs. state (fs_run messageSize (FileStream_new l f) evs) = Done"
    using assms by (rule reach_Done)
next
  fix evs
  let ?s = "fs_run messageSize (FileStream_new l f) evs"
  have "wire_inv messageSize f ?s"
    using assms by (intro wire_inv_run fs_inv_new wire_inv_new) simp
  then obtain chunks k where ck:
    "concat chunks = take k (contents f)" "\<forall>c \<in> set chunks. int (length c) \<le> messageSize"
    "case state ?s of
       Fileinfo \<Rightarrow> dataChannel ?s = []
     | Send \<Rightarrow> dataChannel ?s = Text (JSON_stringify (packet f)) # map Binary chunks
     | Sending \<Rightarrow> dataChannel ?s = Text (JSON_stringify (packet f)) # map Binary chunks
     | Done \<Rightarrow>
         dataChannel ?s = Text (JSON_stringify (packet f)) # map Binary chunks @ [Text done_text] \<and>
         k = length (contents f)"
    unfolding wire_inv_def by (cases "state ?s") auto
  from ck(3) have
    "dataChannel ?s = [] \<or>
     dataChannel ?s = [Text (JSON_stringify (packet f))] @ map Binary chunks \<or>
     dataChannel ?s = [Text (JSON_stringify (packet f))] @ map Binary chunks @ [Text done_text] \<and>
     k = length (contents f)"
    by (cases "state ?s") simp_all
  with ck(1,2) show \<open>\<exists>chunks k.
            concat chunks = take k (contents f) \<and>
            (\<forall>c \<in> set chunks. int (length c) \<le> messageSize) \<and>
            (dataChannel ?s = [] \<or>
             dataChannel ?s =
               [Text (''{"type":"fileinfo","fileinfo":{"name":'' @ quote (file_name f) @
                      '',"size":'' @ number_to_string (file_size f) @
                      '',"type":'' @ quote (file_type f) @ ''}}'')] @
               map Binary chunks \<or>
             dataChannel ?s =
               [Text (''{"type":"fileinfo","fileinfo":{"name":'' @ quote (file_name f) @
                      '',"size":'' @ number_to_string (file_size f) @
                      '',"type":'' @ quote (file_type f) @ ''}}'')] @
               map Binary chunks @ [Text ''{"type":"done"}''] \<and>
             k = length (contents f))\<close>
    unfolding fileinfo_text done_text_def by blast
next
  fix evs
  let ?s = "fs_run messageSize (FileStream_new l f) evs"
  assume d: "state ?s = Done"
  have "wire_inv messageSize f ?s"
    using assms by (intro wire_inv_run fs_inv_new wire_inv_new) simp
  with d obtain chunks where
    "dataChannel ?s = Text (JSON_stringify (packet f)) # map Binary chunks @ [Text done_text]"
    "concat chunks = contents f" "\<forall>c \<in> set chunks. int (length c) \<le> messageSize"
    by (auto simp: wire_inv_def)
  then show \<open>\<exists>chunks.
               dataChannel ?s =
                 [Text (''{"type":"fileinfo","fileinfo":{"name":'' @ quote (file_name f) @
                        '',"size":'' @ number_to_string (file_size f) @
                        '',"type":'' @ quote (file_type f) @ ''}}'')] @
                 map Binary chunks @ [Text ''{"type":"done"}''] \<and>
               concat chunks = contents f \<and>
               (\<forall>c \<in> set chunks. int (length c) \<le> messageSize)\<close>
    by (intro exI[of _ chunks]) (simp add: fileinfo_text done_text_def)
qed

text \<open>The transfer of \<open>hello_txt\<close> in chunks of two bytes.\<close>

theorem C1_wire_sequence_witness:
  \<open>(0::int) < 2 \<and>
   state (fs_run 2 (FileStream_new ''L'' hello_txt) hello_events) = Done \<and>
   dataChannel (fs_run 2 (FileStream_new ''L'' hello_txt) hello_events) =
     [Text ''{"type":"fileinfo","fileinfo":{"name":"a.txt","size":5,"type":"text/plain"}}'',
      Binary ''he'', Binary ''ll'', Binary ''o'', Text ''{"type":"done"}''] \<and>
   (\<exists>chunks.
      dataChannel (fs_run 2 (FileStream_new ''L'' hello_txt) hello_events) =
        [Text ''{"type":"fileinfo","fileinfo":{"name":"a.txt","size":5,"type":"text/plain"}}''] @
        map Binary chunks @ [Text ''{"type":"done"}''] \<and>
      concat chunks = ''hello'' \<and> list_all (\<lambda>c. int (length c) \<le> 2) chunks)\<close>
proof -
  have h: "(0::int) < 2" by simp
  have d: "state (fs_run 2 (FileStream_new ''L'' hello_txt) hello_events) = Done"
    by (simp add: fs_eval hello_txt_def hello_events_def)
  have c: \<open>dataChannel (fs_run 2 (FileStream_new ''L'' hello_txt) hello_events) =
     [Text ''{"type":"fileinfo","fileinfo":{"name":"a.txt","size":5,"type":"text/plain"}}'',
      Binary ''he'', Binary ''ll'', Binary ''o'', Text ''{"type":"done"}'']\<close>
    by (simp add: fs_eval hello_txt_def hello_events_def packet_def quote_def escape_char_def
          backslash_def number_to_string_def decimal_digits.simps digit_char_def done_text_def)
  have q: \<open>quote ''a.txt'' = ''"a.txt"''\<close> \<open>quote ''text/plain'' = ''"text/plain"''\<close>
     \<open>number_to_string 5 = ''5''\<close>
    by (simp_all add: quote_def escape_char_def backslash_def number_to_string_def decimal_digits.simps digit_char_def)
  from C1_wire_sequence[OF h, of "''L''" hello_txt] d
  have \<open>\<exists>chunks.
      dataChannel (fs_run 2 (FileStream_new ''L'' hello_txt) hello_events) =
        [Text ''{"type":"fileinfo","fileinfo":{"name":"a.txt","size":5,"type":"text/plain"}}''] @
        map Binary chunks @ [Text ''{"type":"done"}''] \<and>
      concat chunks = ''hello'' \<and> list_all (\<lambda>c. int (length c) \<le> 2) chunks\<close>
    by (simp add: hello_txt_def q file_size_def list_all_iff)
  with h d c show ?thesis by blast
qed

text \<open>
  C2. The claim is that the FileStream dispatches a local \<^verbatim>\<open>'done'\<close> event exactly once when
  it sends the \<^verbatim>\<open>done\<close> message. \<^verbatim>\<open>_sendMessage\<close> sends the message, sets the state
  and returns; it never calls \<^verbatim>\<open>dispatchEvent\<close>, although the class comment lists the
  event and the Dropper listens for it. For an empty file: the stream reaches
  \<^verbatim>\<open>'done'\<close>, the channel holds the file information and the \<^verbatim>\<open>done\<close> message, and no
  event has been dispatched.
\<close>

theorem C2_local_done_not_dispatched:
  \<open>state (fs_run 2 (FileStream_new ''L'' empty_txt)
            [ChannelEvent Open True, ChannelEvent BufferedAmountLow True]) = Done \<and>
   dataChannel (fs_run 2 (FileStream_new ''L'' empty_txt)
            [ChannelEvent Open True, ChannelEvent BufferedAmountLow True]) =
     [Text ''{"type":"fileinfo","fileinfo":{"name":"empty.txt","size":0,"type":"text/plain"}}'',
      Text ''{"type":"done"}''] \<and>
   dispatched (fs_run 2 (FileStream_new ''L'' empty_txt)
            [ChannelEvent Open True, ChannelEvent BufferedAmountLow True]) = []\<close>
  by (simp add: fs_eval empty_txt_def packet_def quote_def escape_char_def backslash_def
        number_to_string_def decimal_digits.simps digit_char_def done_text_def)

text \<open>
  C3. The claim is that a failure of one sender (a chunk read that fails on one file of
  the batch) makes the Dropper dispatch \<^verbatim>\<open>'failed'\<close> exactly once. In a batch of three
  files whose first and third streams finish and whose second stream's read is rejected,
  the second stream stays in \<^verbatim>\<open>'sending'\<close> with its offset advanced, every promise is
  still pending, and the Dropper has dispatched nothing: neither \<^verbatim>\<open>'failed'\<close> nor
  \<^verbatim>\<open>'done'\<close>.
\<close>

theorem C3_read_failure_not_reported:
  "map state (fileStreams (dropper_run 2
       (Dropper_new example_uuid [empty_txt, hello_txt, empty_txt]) scenario_D)) =
     [Done, Sending, Done] \<and>
   map offset (fileStreams (dropper_run 2
       (Dropper_new example_uuid [empty_txt, hello_txt, empty_txt]) scenario_D)) = [0, 2, 0] \<and>
   map (\<lambda>s. length (dataChannel s)) (fileStreams (dropper_run 2
       (Dropper_new example_uuid [empty_txt, hello_txt, empty_txt]) scenario_D)) = [2, 1, 2] \<and>
   promises (dropper_run 2
       (Dropper_new example_uuid [empty_txt, hello_txt, empty_txt]) scenario_D) =
     [Pending, Pending, Pending] \<and>
   events (dropper_run 2
       (Dropper_new example_uuid [empty_txt, hello_txt, empty_txt]) scenario_D) = []"
  by code_simp

text \<open>
  C4, as the code has it. An exception inside \<^verbatim>\<open>_sendMessage\<close> never leaves the handler
  and nothing is sent or dispatched by the failing call. When the send of a control
  message (file information or \<^verbatim>\<open>done\<close>) throws, the stream is exactly as it was when the
  handler was entered. When the byte read of a chunk is rejected, or the send of its
  buffer throws, the stream is left in the state \<^verbatim>\<open>'sending'\<close> with the offset already
  advanced past that chunk, both set before the read began, whatever channel events
  arrived in between; from then on every event leaves the stream unchanged.
\<close>

theorem C4_error_caught:
  "((state s = Fileinfo \<or> state s = Send \<and> file_size (file s) \<le> offset s) \<longrightarrow>
      sendMessage_try messageSize False s = (s, Some SendError) \<and>
      fs_step messageSize s (ChannelEvent ce False) = s) \<and>
   (state s = Send \<and> offset s < file_size (file s) \<and> awaiting s = [] \<and> \<not> (read_ok \<and> send_ok) \<longrightarrow>
      snd (sendMessage_resume_try read_ok send_ok
             (fs_run messageSize s (ChannelEvent ce ok # map (\<lambda>(ce, ok). ChannelEvent ce ok) mid))) =
        Some (if read_ok then SendError else ReadError) \<and>
      fs_run messageSize s
        (ChannelEvent ce ok # map (\<lambda>(ce, ok). ChannelEvent ce ok) mid @
         [ArrayBufferSettled read_ok send_ok]) =
        s\<lparr>state := Sending, offset := min (offset s + messageSize) (file_size (file s))\<rparr> \<and>
      (\<forall>evs. fs_run messageSize
               (s\<lparr>state := Sending, offset := min (offset s + messageSize) (file_size (file s))\<rparr>) evs =
             s\<lparr>state := Sending, offset := min (offset s + messageSize) (file_size (file s))\<rparr>))"
proof (intro conjI impI)
  assume "state s = Fileinfo \<or> state s = Send \<and> file_size (file s) \<le> offset s"
  then show "sendMessage_try messageSize False s = (s, Some SendError)"
    by (auto simp: sendMessage_try_def send_def)
  then show "fs_step messageSize s (ChannelEvent ce False) = s"
    by (simp add: fs_step_ChannelEvent sendMessage_def catch_def)
next
  assume a: "state s = Send \<and> offset s < file_size (file s) \<and> awaiting s = [] \<and> \<not> (read_ok \<and> send_ok)"
  let ?e = "min (offset s + messageSize) (file_size (file s))"
  let ?s1 = "s\<lparr>state := Sending, offset := ?e, awaiting := [slice (contents (file s)) (offset s) ?e]\<rparr>"
  let ?s2 = "s\<lparr>state := Sending, offset := ?e\<rparr>"
  from a have s1: "fs_step messageSize s (ChannelEvent ce ok) = ?s1"
    by (simp add: fs_step_ChannelEvent sendMessage_def sendMessage_try_def catch_def Let_def)
  have mid: "fs_run messageSize s (ChannelEvent ce ok # map (\<lambda>(ce, ok). ChannelEvent ce ok) mid) = ?s1"
    by (simp only: fs_run.simps s1) (simp add: sending_run_channel_events)
  from a show "snd (sendMessage_resume_try read_ok send_ok
             (fs_run messageSize s (ChannelEvent ce ok # map (\<lambda>(ce, ok). ChannelEvent ce ok) mid))) =
        Some (if read_ok then SendError else ReadError)"
    unfolding mid by (auto simp: sendMessage_resume_try_def send_def Let_def)
  have "fs_run messageSize s
        ((ChannelEvent ce ok # map (\<lambda>(ce, ok). ChannelEvent ce ok) mid) @
         [ArrayBufferSettled read_ok send_ok]) =
        fs_run messageSize ?s1 [ArrayBufferSettled read_ok send_ok]"
    by (simp only: fs_run_append mid)
  then have "fs_run messageSize s
        (ChannelEvent ce ok # map (\<lambda>(ce, ok). ChannelEvent ce ok) mid @
         [ArrayBufferSettled read_ok send_ok]) =
        fs_step messageSize ?s1 (ArrayBufferSettled read_ok send_ok)"
    by simp
  also from a have "\<dots> = ?s2"
    by (auto simp: sendMessage_resume_def sendMessage_resume_try_def catch_def send_def Let_def)
  finally show "fs_run messageSize s
        (ChannelEvent ce ok # map (\<lambda>(ce, ok). ChannelEvent ce ok) mid @
         [ArrayBufferSettled read_ok send_ok]) = ?s2" .
  from a show "\<forall>evs. fs_run messageSize ?s2 evs = ?s2"
    by (simp add: stalled_run)
qed

text \<open>
  The claim as stated fails: the handler entered in state \<^verbatim>\<open>'send'\<close> at offset 0, whose
  read is rejected, leaves the stream in state \<^verbatim>\<open>'sending'\<close> at offset 2.
\<close>

theorem C4_error_caught_counterexample:
  "state send_hello = Send \<and> offset send_hello = 0 \<and>
   snd (sendMessage_resume_try False True
          (fs_step 2 send_hello (ChannelEvent BufferedAmountLow True))) = Some ReadError \<and>
   state (fs_run 2 send_hello
            [ChannelEvent BufferedAmountLow True, ArrayBufferSettled False True]) = Sending \<and>
   offset (fs_run 2 send_hello
            [ChannelEvent BufferedAmountLow True, ArrayBufferSettled False True]) = 2"
  by (simp add: send_hello_def fs_eval hello_txt_def)

theorem C4_error_caught_witness:
  "state (FileStream_new ''L'' hello_txt) = Fileinfo \<and>
   fs_step 2 (FileStream_new ''L'' hello_txt) (ChannelEvent Open False) =
     FileStream_new ''L'' hello_txt \<and>
   state send_hello = Send \<and> offset send_hello < file_size (file send_hello) \<and>
   awaiting send_hello = [] \<and>
   fs_run 2 send_hello
     [ChannelEvent BufferedAmountLow True, ChannelEvent BufferedAmountLow True,
      ArrayBufferSettled False True] =
     send_hello\<lparr>state := Sending, offset := 2\<rparr> \<and>
   fs_run 2 (send_hello\<lparr>state := Sending, offset := 2\<rparr>)
     [ChannelEvent BufferedAmountLow True, ArrayBufferSettled True True] =
     send_hello\<lparr>state := Sending, offset := 2\<rparr>"
proof -
  have a: "state (FileStream_new ''L'' hello_txt) = Fileinfo"
    by (simp add: FileStream_new_def)
  have b: "state send_hello = Send" "offset send_hello < file_size (file send_hello)"
    "awaiting send_hello = []" "\<not> (False \<and> True)"
    "min (offset send_hello + 2) (file_size (file send_hello)) = 2"
    by (simp_all add: send_hello_def fs_eval hello_txt_def)
  from C4_error_caught[where s = "FileStream_new ''L'' hello_txt" and messageSize = 2 and ce = Open] a
  have c: "fs_step 2 (FileStream_new ''L'' hello_txt) (ChannelEvent Open False) =
     FileStream_new ''L'' hello_txt" by simp
  from C4_error_caught[where s = send_hello and messageSize = 2 and ce = BufferedAmountLow
      and ok = True and mid = "[(BufferedAmountLow, True)]" and read_ok = False and send_ok = True] b
  have d: "fs_run 2 send_hello
     [ChannelEvent BufferedAmountLow True, ChannelEvent BufferedAmountLow True,
      ArrayBufferSettled False True] =
     send_hello\<lparr>state := Sending, offset := 2\<rparr>"
    "\<forall>evs. fs_run 2 (send_hello\<lparr>state := Sending, offset := 2\<rparr>) evs =
       send_hello\<lparr>state := Sending, offset := 2\<rparr>"
    by simp_all
  from a b c d show ?thesis by blast
qed

text \<open>
  C5, as the code has it. For a non-negative message size, in every run of a FileStream
  and at every event: the offset lies between 0 and the file's size and never decreases;
  it changes only in the step from \<^verbatim>\<open>'send'\<close> to \<^verbatim>\<open>'sending'\<close> that a channel event starts,
  where it moves to the minimum of offset + message size and the file's size, which is
  by exactly the length of the slice taken in that step. That step hands nothing to the
  channel. The slice is handed to the channel afterwards, when its read has resolved
  and its send is accepted, whatever channel events arrived in between; when the read
  is rejected or the send throws, the channel is as before and the offset stays
  advanced.
\<close>

theorem C5_offset_advance:
  assumes "0 \<le> messageSize"
  shows "0 \<le> offset (fs_run messageSize (FileStream_new l f) evs) \<and>
         offset (fs_run messageSize (FileStream_new l f) evs) \<le> file_size f \<and>
         offset (fs_run messageSize (FileStream_new l f) evs)
           \<le> offset (fs_step messageSize (fs_run messageSize (FileStream_new l f) evs) ev) \<and>
         (offset (fs_step messageSize (fs_run messageSize (FileStream_new l f) evs) ev)
            \<noteq> offset (fs_run messageSize (FileStream_new l f) evs) \<longrightarrow>
          (\<exists>ce ok. ev = ChannelEvent ce ok) \<and>
          state (fs_run messageSize (FileStream_new l f) evs) = Send \<and>
          state (fs_step messageSize (fs_run messageSize (FileStream_new l f) evs) ev) = Sending \<and>
          offset (fs_step messageSize (fs_run messageSize (FileStream_new l f) evs) ev) =
            min (offset (fs_run messageSize (FileStream_new l f) evs) + messageSize) (file_size f) \<and>
          awaiting (fs_step messageSize (fs_run messageSize (FileStream_new l f) evs) ev) =
            [slice (contents f) (offset (fs_run messageSize (FileStream_new l f) evs))
               (offset (fs_step messageSize (fs_run messageSize (FileStream_new l f) evs) ev))] \<and>
          offset (fs_step messageSize (fs_run messageSize (FileStream_new l f) evs) ev)
            - offset (fs_run messageSize (FileStream_new l f) evs) =
            int (length (slice (contents f) (offset (fs_run messageSize (FileStream_new l f) evs))
               (offset (fs_step messageSize (fs_run messageSize (FileStream_new l f) evs) ev)))) \<and>
          dataChannel (fs_step messageSize (fs_run messageSize (FileStream_new l f) evs) ev) =
            dataChannel (fs_run messageSize (FileStream_new l f) evs) \<and>
          offset (fs_step messageSize
                    (fs_run messageSize
                       (fs_step messageSize (fs_run messageSize (FileStream_new l f) evs) ev)
                       (map (\<lambda>(ce, ok). ChannelEvent ce ok) mid))
                    (ArrayBufferSettled read_ok send_ok)) =
            offset (fs_step messageSize (fs_run messageSize (FileStream_new l f) evs) ev) \<and>
          dataChannel (fs_step messageSize
                    (fs_run messageSize
                       (fs_step messageSize (fs_run messageSize (FileStream_new l f) evs) ev)
                       (map (\<lambda>(ce, ok). ChannelEvent ce ok) mid))
                    (ArrayBufferSettled read_ok send_ok)) =
            (if read_ok \<and> send_ok
             then dataChannel (fs_run messageSize (FileStream_new l f) evs) @
                  [Binary (slice (contents f) (offset (fs_run messageSize (FileStream_new l f) evs))
                     (offset (fs_step messageSize (fs_run messageSize (FileStream_new l f) evs) ev)))]
             else dataChannel (fs_run messageSize (FileStream_new l f) evs)))"
proof -
  define s where "s = fs_run messageSize (FileStream_new l f) evs"
  define s' where "s' = fs_step messageSize s ev"
  define s'' where "s'' = fs_step messageSize
      (fs_run messageSize s' (map (\<lambda>(ce, ok). ChannelEvent ce ok) mid))
      (ArrayBufferSettled read_ok send_ok)"
  have inv: "fs_inv f s" unfolding s_def by (rule fs_inv_run) (rule fs_inv_new)
  then have fl: "file s = f" and le: "offset s \<le> file_size f"
    by (simp_all add: fs_inv_def)
  have nn: "0 \<le> offset s"
    unfolding s_def using assms by (rule offset_nonneg_run) (simp add: FileStream_new_def)
  have adv: "(\<exists>ce ok. ev = ChannelEvent ce ok) \<and> state s = Send \<and> state s' = Sending \<and>
      offset s' = min (offset s + messageSize) (file_size f) \<and>
      awaiting s' = [slice (contents f) (offset s) (offset s')] \<and>
      offset s' - offset s = int (length (slice (contents f) (offset s) (offset s'))) \<and>
      dataChannel s' = dataChannel s \<and>
      offset s'' = offset s' \<and>
      dataChannel s'' =
        (if read_ok \<and> send_ok
         then dataChannel s @ [Binary (slice (contents f) (offset s) (offset s'))]
         else dataChannel s)"
    if ne: "offset s' \<noteq> offset s"
  proof (cases ev)
    case (ArrayBufferSettled r ok)
    with ne show ?thesis by (simp add: s'_def offset_resume)
  next
    case (ChannelEvent ce ok)
    with ne offset_sendMessage_cases[of messageSize ok s]
    have st: "state s = Send" "offset s < file_size f"
      and eq: "s' = s\<lparr>state := Sending, offset := min (offset s + messageSize) (file_size f),
         awaiting := awaiting s @
           [slice (contents f) (offset s) (min (offset s + messageSize) (file_size f))]\<rparr>"
      by (auto simp: s'_def fs_step_ChannelEvent fl)
    from inv st have aw: "awaiting s = []" by (simp add: fs_inv_def)
    have rng: "offset s \<le> min (offset s + messageSize) (file_size f)"
      "min (offset s + messageSize) (file_size f) \<le> int (length (contents f))"
      using assms st by (simp_all add: file_size_def)
    have len: "int (length (slice (contents f) (offset s) (min (offset s + messageSize) (file_size f)))) =
        min (offset s + messageSize) (file_size f) - offset s"
      using nn rng by (rule length_slice)
    from eq have "state s' = Sending" by simp
    then have "fs_run messageSize s' (map (\<lambda>(ce, ok). ChannelEvent ce ok) mid) = s'"
      by (rule sending_run_channel_events)
    then have s'': "s'' = sendMessage_resume read_ok send_ok s'"
      by (simp add: s''_def)
    have o: "offset s'' = offset s'" by (simp add: s'' offset_resume)
    have d: "dataChannel s'' =
        (if read_ok \<and> send_ok
         then dataChannel s @ [Binary (slice (contents f) (offset s) (offset s'))]
         else dataChannel s)"
      unfolding s'' using eq aw
      by (simp add: sendMessage_resume_def sendMessage_resume_try_def catch_def send_def Let_def)
    from ChannelEvent st eq aw len o d show ?thesis by simp
  qed
  have mono: "offset s \<le> offset s'"
  proof (cases "offset s' = offset s")
    case True then show ?thesis by simp
  next
    case False
    from adv[OF this] assms le show ?thesis by simp
  qed
  from nn le mono adv show ?thesis
    unfolding s''_def s'_def s_def by blast
qed

text \<open>
  The claim as stated fails: with a rejected read the offset has advanced from 0 to 2
  and no slice has been handed to the channel, which holds the file information only,
  now and after any later event.
\<close>

theorem C5_offset_advance_counterexample:
  "offset send_hello = 0 \<and>
   offset (fs_run 2 send_hello
            [ChannelEvent BufferedAmountLow True, ArrayBufferSettled False True]) = 2 \<and>
   dataChannel (fs_run 2 send_hello
            [ChannelEvent BufferedAmountLow True, ArrayBufferSettled False True]) =
     dataChannel send_hello \<and>
   length (dataChannel send_hello) = 1 \<and>
   fs_run 2 send_hello
     [ChannelEvent BufferedAmountLow True, ArrayBufferSettled False True,
      ChannelEvent BufferedAmountLow True, ArrayBufferSettled True True] =
   fs_run 2 send_hello
     [ChannelEvent BufferedAmountLow True, ArrayBufferSettled False True]"
  by (simp add: send_hello_def fs_eval hello_txt_def)

theorem C5_offset_advance_witness:
  "(0::int) \<le> 2 \<and>
   offset (fs_run 2 (FileStream_new ''L'' hello_txt) [ChannelEvent Open True]) = 0 \<and>
   offset (fs_step 2 (fs_run 2 (FileStream_new ''L'' hello_txt) [ChannelEvent Open True])
             (ChannelEvent BufferedAmountLow True)) = 2 \<and>
   state (fs_run 2 (FileStream_new ''L'' hello_txt) [ChannelEvent Open True]) = Send \<and>
   awaiting (fs_step 2 (fs_run 2 (FileStream_new ''L'' hello_txt) [ChannelEvent Open True])
             (ChannelEvent BufferedAmountLow True)) = [''he''] \<and>
   dataChannel (fs_step 2
       (fs_run 2
          (fs_step 2 (fs_run 2 (FileStream_new ''L'' hello_txt) [ChannelEvent Open True])
             (ChannelEvent BufferedAmountLow True))
          [ChannelEvent BufferedAmountLow True])
       (ArrayBufferSettled True True)) =
     dataChannel (fs_run 2 (FileStream_new ''L'' hello_txt) [ChannelEvent Open True]) @
       [Binary ''he''] \<and>
   dataChannel (fs_step 2
       (fs_run 2
          (fs_step 2 (fs_run 2 (FileStream_new ''L'' hello_txt) [ChannelEvent Open True])
             (ChannelEvent BufferedAmountLow True))
          [ChannelEvent BufferedAmountLow True])
       (ArrayBufferSettled True False)) =
     dataChannel (fs_run 2 (FileStream_new ''L'' hello_txt) [ChannelEvent Open True])"
proof -
  have h: "(0::int) \<le> 2" by simp
  have o: "offset (fs_run 2 (FileStream_new ''L'' hello_txt) [ChannelEvent Open True]) = 0"
    "offset (fs_step 2 (fs_run 2 (FileStream_new ''L'' hello_txt) [ChannelEvent Open True])
             (ChannelEvent BufferedAmountLow True)) = 2"
    by (simp_all add: fs_eval hello_txt_def)
  have sl: "slice (contents hello_txt) 0 2 = ''he''"
    by (simp add: slice_def relative_pos_def hello_txt_def)
  from C5_offset_advance[OF h, where l = "''L''" and f = hello_txt and evs = "[ChannelEvent Open True]"
      and ev = "ChannelEvent BufferedAmountLow True" and mid = "[(BufferedAmountLow, True)]"
      and read_ok = True and send_ok = True]
    C5_offset_advance[OF h, where l = "''L''" and f = hello_txt and evs = "[ChannelEvent Open True]"
      and ev = "ChannelEvent BufferedAmountLow True" and mid = "[(BufferedAmountLow, True)]"
      and read_ok = True and send_ok = False]
    o sl h
  show ?thesis by simp
qed

text \<open>
  C6. In every run of a FileStream the \<^verbatim>\<open>done\<close> message is on the channel at most once,
  and a step that sends it starts and ends with the offset equal to the file's size.
\<close>

theorem C6_done_at_most_once:
  \<open>count_list (dataChannel (fs_run messageSize (FileStream_new l f) evs))
       (Text ''{"type":"done"}'') \<le> 1 \<and>
    (dataChannel (fs_step messageSize (fs_run messageSize (FileStream_new l f) evs) ev) =
       dataChannel (fs_run messageSize (FileStream_new l f) evs) @ [Text ''{"type":"done"}''] \<longrightarrow>
     offset (fs_run messageSize (FileStream_new l f) evs) = file_size f \<and>
     offset (fs_step messageSize (fs_run messageSize (FileStream_new l f) evs) ev) = file_size f)\<close>
proof -
  define s where "s = fs_run messageSize (FileStream_new l f) evs"
  have inv: "fs_inv f s" unfolding s_def by (rule fs_inv_run) (rule fs_inv_new)
  then have c: "count_list (dataChannel s) (Text done_text) \<le> 1"
    and fl: "file s = f" and le: "offset s \<le> file_size f"
    by (simp_all add: fs_inv_def)
  have "offset s = file_size f \<and> offset (fs_step messageSize s ev) = file_size f"
    if snd: "dataChannel (fs_step messageSize s ev) = dataChannel s @ [Text done_text]"
  proof (cases ev)
    case (ChannelEvent ce ok)
    with snd sends_done_sendMessage[of messageSize ok s] fl le show ?thesis
      by (simp add: fs_step_ChannelEvent)
  next
    case (ArrayBufferSettled r ok)
    with snd sends_done_resume[of r ok s] show ?thesis by simp
  qed
  with c show ?thesis
    unfolding s_def done_text_def by blast
qed

theorem C6_done_at_most_once_witness:
  \<open>dataChannel (fs_step 2 (fs_run 2 (FileStream_new ''L'' hello_txt) (butlast hello_events))
       (last hello_events)) =
     dataChannel (fs_run 2 (FileStream_new ''L'' hello_txt) (butlast hello_events)) @
       [Text ''{"type":"done"}''] \<and>
   offset (fs_run 2 (FileStream_new ''L'' hello_txt) (butlast hello_events)) = 5 \<and>
   file_size hello_txt = 5 \<and>
   count_list (dataChannel (fs_run 2 (FileStream_new ''L'' hello_txt) (butlast hello_events)))
     (Text ''{"type":"done"}'') \<le> 1\<close>
proof -
  have a: \<open>dataChannel (fs_step 2 (fs_run 2 (FileStream_new ''L'' hello_txt) (butlast hello_events))
       (last hello_events)) =
     dataChannel (fs_run 2 (FileStream_new ''L'' hello_txt) (butlast hello_events)) @
       [Text ''{"type":"done"}'']\<close>
    by (simp add: fs_eval hello_txt_def hello_events_def done_text_def)
  have b: "file_size hello_txt = 5" by (simp add: file_size_def hello_txt_def)
  from C6_done_at_most_once[of 2 "''L''" hello_txt "butlast hello_events" "last hello_events"] a b
  show ?thesis by simp
qed

text \<open>
  C7. In the state \<^verbatim>\<open>'sending'\<close> a channel event, whether \<^verbatim>\<open>open\<close> or
  \<^verbatim>\<open>bufferedamountlow\<close>, leaves the whole stream as it was: state, offset, channel and
  pending reads. The state is left only when the pending read resolves and its buffer
  is sent. In every run at most one read is pending, and only in that state.
\<close>

theorem C7_sending_serializes:
  "(state s = Sending \<longrightarrow> fs_step messageSize s (ChannelEvent ce ok) = s) \<and>
   (state s = Sending \<and> state (fs_step messageSize s ev) \<noteq> Sending \<longrightarrow>
      ev = ArrayBufferSettled True True \<and>
      (\<exists>blob rest. awaiting s = blob # rest \<and> awaiting (fs_step messageSize s ev) = rest \<and>
         dataChannel (fs_step messageSize s ev) = dataChannel s @ [Binary blob] \<and>
         state (fs_step messageSize s ev) = Send)) \<and>
   length (awaiting (fs_run messageSize (FileStream_new l f) evs)) \<le> 1 \<and>
   (awaiting (fs_run messageSize (FileStream_new l f) evs) \<noteq> [] \<longrightarrow>
      state (fs_run messageSize (FileStream_new l f) evs) = Sending)"
proof -
  have "fs_inv f (fs_run messageSize (FileStream_new l f) evs)"
    by (rule fs_inv_run) (rule fs_inv_new)
  then have "length (awaiting (fs_run messageSize (FileStream_new l f) evs)) \<le> 1"
    "awaiting (fs_run messageSize (FileStream_new l f) evs) \<noteq> [] \<longrightarrow>
      state (fs_run messageSize (FileStream_new l f) evs) = Sending"
    by (auto simp: fs_inv_def)
  then show ?thesis
    using leaves_sending[of s messageSize ev]
    by (simp add: fs_step_ChannelEvent sending_ignores)
qed

theorem C7_sending_serializes_witness:
  "state sending_hello = Sending \<and>
   awaiting sending_hello = [''he''] \<and>
   fs_step 2 sending_hello (ChannelEvent BufferedAmountLow True) = sending_hello \<and>
   state (fs_step 2 sending_hello (ArrayBufferSettled True True)) = Send \<and>
   dataChannel (fs_step 2 sending_hello (ArrayBufferSettled True True)) =
     dataChannel sending_hello @ [Binary ''he'']"
proof -
  have a: "state sending_hello = Sending" "awaiting sending_hello = [''he'']"
    by (simp_all add: sending_hello_def fs_eval hello_txt_def)
  have b: "state (fs_step 2 sending_hello (ArrayBufferSettled True True)) = Send"
    by (simp add: sending_hello_def fs_eval hello_txt_def)
  from C7_sending_serializes[of sending_hello 2 BufferedAmountLow True "ArrayBufferSettled True True"
      "''L''" hello_txt "[ChannelEvent Open True, ChannelEvent BufferedAmountLow True]"] a b
  show ?thesis by (auto simp: sending_hello_def)
qed

text \<open>
  C8. The getter \<^verbatim>\<open>bytesSent\<close> returns the sum of the offsets of the Dropper's file
  streams as they are when it is called, and for a non-negative message size no
  sequence of events makes a later reading smaller than an earlier one.
\<close>

theorem C8_bytesSent_total:
  assumes "0 \<le> messageSize"
  shows "bytesSent d = sum_list (map offset (fileStreams d)) \<and>
         bytesSent d \<le> bytesSent (dropper_run messageSize d evs)"
proof
  show "bytesSent d = sum_list (map offset (fileStreams d))"
    by (simp add: bytesSent_def bytesSent_loop_sum)
  show "bytesSent d \<le> bytesSent (dropper_run messageSize d evs)"
    using assms by (rule bytesSent_run_mono)
qed

theorem C8_bytesSent_total_witness:
  "(0::int) \<le> 2 \<and>
   bytesSent (Dropper_new example_uuid [empty_txt, hello_txt, empty_txt]) = 0 \<and>
   bytesSent (dropper_run 2 (Dropper_new example_uuid [empty_txt, hello_txt, empty_txt]) scenario_D) = 2 \<and>
   bytesSent (Dropper_new example_uuid [empty_txt, hello_txt, empty_txt]) \<le>
     bytesSent (dropper_run 2 (Dropper_new example_uuid [empty_txt, hello_txt, empty_txt]) scenario_D)"
proof -
  have h: "(0::int) \<le> 2" by simp
  have a: "map offset (fileStreams (Dropper_new example_uuid [empty_txt, hello_txt, empty_txt])) = [0, 0, 0]"
    by code_simp
  have b: "map offset (fileStreams (dropper_run 2
       (Dropper_new example_uuid [empty_txt, hello_txt, empty_txt]) scenario_D)) = [0, 2, 0]"
    by code_simp
  from C8_bytesSent_total[OF h, of "Dropper_new example_uuid [empty_txt, hello_txt, empty_txt]" scenario_D]
    C8_bytesSent_total[OF h, of "dropper_run 2 (Dropper_new example_uuid [empty_txt, hello_txt, empty_txt]) scenario_D" "[]"]
    a b h
  show ?thesis by simp
qed

text \<open>
  C9, as the code has it. The peer's \<^verbatim>\<open>connected\<close> and \<^verbatim>\<open>disconnected\<close> events are
  dispatched again under the same names. The peer's \<^verbatim>\<open>registered\<close> event stores its data
  in the field \<^verbatim>\<open>id\<close> and is dispatched as \<^verbatim>\<open>'idchanged'\<close>. Nothing else changes.
\<close>

theorem C9_peer_events_relayed:
  "dropper_step messageSize d (PeerEvent (Registered data)) =
     d\<lparr>drop_id := Some data, events := events d @ [''idchanged'']\<rparr> \<and>
   dropper_step messageSize d (PeerEvent Connected) = d\<lparr>events := events d @ [''connected'']\<rparr> \<and>
   dropper_step messageSize d (PeerEvent Disconnected) = d\<lparr>events := events d @ [''disconnected'']\<rparr>"
  by (simp add: dispatchEvent_def)

text \<open>The claim as stated fails: \<^verbatim>\<open>registered\<close> is not dispatched under its own name.\<close>

theorem C9_peer_events_relayed_counterexample:
  "events (dropper_step 2 (Dropper_new example_uuid [hello_txt]) (PeerEvent (Registered ''abc''))) =
     [''idchanged''] \<and>
   events (dropper_step 2 (Dropper_new example_uuid [hello_txt]) (PeerEvent (Registered ''abc''))) \<noteq>
     [''registered'']"
  by (simp add: dropper_eval)

theorem C9_peer_events_relayed_witness:
  "events (dropper_step 2 (Dropper_new example_uuid [hello_txt]) (PeerEvent Connected)) =
     [''connected''] \<and>
   events (dropper_step 2 (Dropper_new example_uuid [hello_txt]) (PeerEvent Disconnected)) =
     [''disconnected''] \<and>
   drop_id (dropper_step 2 (Dropper_new example_uuid [hello_txt]) (PeerEvent (Registered ''abc''))) =
     Some ''abc''"
proof -
  have e: "events (Dropper_new example_uuid [hello_txt]) = []"
    by (simp add: dropper_eval)
  from C9_peer_events_relayed[of 2 "Dropper_new example_uuid [hello_txt]" "''abc''"] e
  show ?thesis by simp
qed

text \<open>
  C10. In every run of a Dropper, whatever the files, the events and the outcomes of
  reads and sends, no promise of \<^verbatim>\<open>_awaitFileStreams\<close> is rejected, \<^verbatim>\<open>Promise.all\<close> over
  them is not rejected, and \<^verbatim>\<open>'failed'\<close> is never dispatched.
\<close>

theorem C10_never_failed:
  "''failed'' \<notin> set (events (dropper_run messageSize (Dropper_new uuid files) evs)) \<and>
   Rejected \<notin> set (promises (dropper_run messageSize (Dropper_new uuid files) evs)) \<and>
   Promise_all (promises (dropper_run messageSize (Dropper_new uuid files) evs)) \<noteq> Rejected"
  using dropper_inv_run[OF dropper_inv_new, of messageSize uuid files evs]
  by (simp add: dropper_inv_def Promise_all_not_Rejected)

theorem C10_never_failed_witness:
  "''failed'' \<notin> set (events (dropper_run 2
       (Dropper_new example_uuid [empty_txt, hello_txt, empty_txt]) scenario_D)) \<and>
   Promise_all (promises (dropper_run 2
       (Dropper_new example_uuid [empty_txt, hello_txt, empty_txt]) scenario_D)) \<noteq> Rejected"
  using C10_never_failed[of 2 example_uuid "[empty_txt, hello_txt, empty_txt]" scenario_D]
  by simp

end
